theory Spec2Isabelle
  imports Main "HOL-Library.Sublist" "HOL-Library.Multiset"
begin

section \<open>Strings\<close>

text \<open>
  Python strings are modelled as \<open>string\<close>. \<open>isspace\<close> is the whitespace class that
  both \<open>str.strip()\<close> and the regular expression class \<open>\s\<close> use: tab, line feed,
  vertical tab, form feed, carriage return, the separators 0x1C to 0x1F, space,
  0x85 and 0xA0.
\<close>

definition isspace :: "char \<Rightarrow> bool" where
  "isspace c = (let n = (of_char c :: nat)
                in (9 \<le> n \<and> n \<le> 13) \<or> (28 \<le> n \<and> n \<le> 32) \<or> n = 133 \<or> n = 160)"

definition strip :: "string \<Rightarrow> string" where
  "strip s = rev (dropWhile isspace (rev (dropWhile isspace s)))"





section \<open>Sentence splitter\<close>

text \<open>
  \<open>SECTION_SPLIT_RE = re.compile(r'(?<=[\.\?\!])\s+')\<close>. A match starts at a
  whitespace character whose predecessor is one of \<open>.\<close>, \<open>?\<close>, \<open>!\<close> and takes the
  whole run of whitespace that follows. \<open>split\<close> returns the pieces of the text between
  the matches, from left to right. \<open>re_split_from b s\<close> scans the rest \<open>s\<close> of the
  text, \<open>b\<close> telling whether the character before \<open>s\<close> is in the class \<open>[.?!]\<close>.
\<close>

definition is_punct :: "char \<Rightarrow> bool" where
  "is_punct c = (c = CHR ''.'' \<or> c = CHR ''?'' \<or> c = CHR ''!'')"

definition push_front :: "char \<Rightarrow> string list \<Rightarrow> string list" where
  "push_front c ps = (case ps of [] \<Rightarrow> [[c]] | p # ps' \<Rightarrow> (c # p) # ps')"

function re_split_from :: "bool \<Rightarrow> string \<Rightarrow> string list" where
  "re_split_from b [] = [[]]"
| "re_split_from b (c # cs) =
     (if b \<and> isspace c then [] # re_split_from False (dropWhile isspace cs)
      else push_front c (re_split_from (is_punct c) cs))"
  by pat_completeness auto
termination
  by (relation "measure (\<lambda>(b, s). length s)")
     (auto simp: length_dropWhile_le less_Suc_eq_le)

definition SECTION_SPLIT_RE_split :: "string \<Rightarrow> string list" where
  "SECTION_SPLIT_RE_split s = re_split_from False s"

definition split_sentences :: "string \<Rightarrow> string list" where
  "split_sentences s = filter (\<lambda>p. strip p \<noteq> []) (SECTION_SPLIT_RE_split s)"

text \<open>
  Two notions used to state what the splitter does: a piece has a break when it
  contains one of \<open>.\<close>, \<open>?\<close>, \<open>!\<close> directly followed by whitespace, and \<open>weave\<close>
  puts a text together again from its pieces and the separators between them.
\<close>

fun has_break :: "string \<Rightarrow> bool" where
  "has_break (a # b # cs) = ((is_punct a \<and> isspace b) \<or> has_break (b # cs))"
| "has_break _ = False"

fun weave :: "string list \<Rightarrow> string list \<Rightarrow> string" where
  "weave [] ws = []"
| "weave (p # ps) [] = p"
| "weave (p # ps) (w # ws) = p @ w @ weave ps ws"

section \<open>Data model\<close>

datatype error = ConfigError | DocumentError | EncoderError | IndexError

record config =
  cfg_documents :: "string list option"
  cfg_persona :: "string option"
  cfg_job :: "string option"







text \<open>
  What the program takes from outside: the file system, the document reader, the
  sentence encoder, the cosine similarity and the sort of the tensor library, and
  the clock. \<open>'v\<close> is the type of an embedding, \<open>'s\<close> the type of a score. An
  operation that can raise returns \<open>Inl\<close>.
\<close>

record ('v, 's) ext =
  json_load :: "string \<Rightarrow> error + config"
  path_exists :: "string \<Rightarrow> bool"
  fitz_open :: "string \<Rightarrow> error + string list"
  encode_query :: "string \<Rightarrow> error + 'v"
  encode :: "string list \<Rightarrow> error + 'v list"
  cos_sim :: "'v \<Rightarrow> 'v list \<Rightarrow> error + 's list"
  argsort_descending :: "'s list \<Rightarrow> nat list"
  utcnow_isoformat :: string

section \<open>Unit extractor\<close>





section \<open>Similarity ranker\<close>

text \<open>The slice \<open>xs[:k]\<close>: a negative \<open>k\<close> counts from the end.\<close>

definition take_py :: "int \<Rightarrow> 'a list \<Rightarrow> 'a list" where
  "take_py k xs = (if 0 \<le> k then take (nat k) xs else take (length xs - nat (- k)) xs)"

text \<open>
  \<open>util.cos_sim(q_emb, embs)[0]\<close> followed by
  \<open>scores.argsort(descending=True).tolist()[:k]\<close>, as \<open>main\<close> does for the sections
  and again for the sentences of each selected section.
\<close>

definition similarity_ranker :: "('v, 's) ext \<Rightarrow> 'v \<Rightarrow> 'v list \<Rightarrow> int \<Rightarrow> error + nat list" where
  "similarity_ranker x q_emb embs k =
     (case cos_sim x q_emb embs of
        Inl e \<Rightarrow> Inl e
      | Inr scores \<Rightarrow> Inr (take_py k (argsort_descending x scores)))"

section \<open>Pipeline\<close>







section \<open>Contracts of the tensor library and stand-ins for it\<close>

text \<open>
  What the documentation of the tensor library promises of
  \<open>argsort(descending=True)\<close> on a one-dimensional tensor \<open>scores\<close>: the result
  \<open>r\<close> lists every index of \<open>scores\<close> once, and the scores read along \<open>r\<close> do
  not increase. The order of equal scores is left open: the program does not pass
  \<open>stable=True\<close>.
\<close>

definition descending_argsort :: "('s::linorder) list \<Rightarrow> nat list \<Rightarrow> bool" where
  "descending_argsort scores r =
     (sort r = [0..<length scores] \<and> sorted_wrt (\<lambda>i j. scores ! j \<le> scores ! i) r)"


text \<open>A stable sort that keeps this promise.\<close>

definition argsort_stable :: "('s::linorder) list \<Rightarrow> nat list" where
  "argsort_stable scores = rev (sort_key (\<lambda>i. scores ! i) (rev [0..<length scores]))"

text \<open>
  A stand-in for the outside world, used to run the program on concrete inputs:
  one configuration file \<open>input.json\<close>, a table of documents with their pages, an
  encoder that embeds a text as its length and raises on an empty batch, and the
  product of two such embeddings as their similarity.
\<close>

definition test_ext ::
  "(int list \<Rightarrow> nat list) \<Rightarrow> config \<Rightarrow> (string \<times> string list) list \<Rightarrow> (int, int) ext" where
  "test_ext sorter cfg files =
     \<lparr>json_load = (\<lambda>p. if p = ''input.json'' then Inr cfg else Inl ConfigError),
      path_exists = (\<lambda>p. map_of files p \<noteq> None),
      fitz_open = (\<lambda>p. case map_of files p of None \<Rightarrow> Inl DocumentError | Some pages \<Rightarrow> Inr pages),
      encode_query = (\<lambda>s. Inr (int (length s))),
      encode = (\<lambda>xs. if xs = [] then Inl EncoderError else Inr (map (\<lambda>s. int (length s)) xs)),
      cos_sim = (\<lambda>q vs. Inr (map (\<lambda>v. q * v) vs)),
      argsort_descending = sorter,
      utcnow_isoformat = ''2025-01-01T00:00:00''\<rparr>"

definition demo_cfg :: config where
  "demo_cfg = \<lparr>cfg_documents = Some [''a.pdf'', ''missing.pdf'', ''b.pdf''],
               cfg_persona = Some ''Analyst'', cfg_job = Some ''Summarize risks''\<rparr>"

definition demo_files :: "(string \<times> string list) list" where
  "demo_files =
     [(''pdfs/a.pdf'', [''Risk one. Risk two is larger!'', ''   '', '' Costs rise? Yes. '']),
      (''pdfs/b.pdf'', [''Short note.''])]"


section \<open>Lemmas about the splitter\<close>

lemma punct_not_space: "is_punct c \<Longrightarrow> \<not> isspace c"
  by (auto simp: is_punct_def isspace_def)

lemma push_front_Cons: "push_front c (p # ps) = (c # p) # ps"
  by (simp add: push_front_def)

lemma re_split_from_split:
  "b \<Longrightarrow> isspace c \<Longrightarrow>
   re_split_from b (c # cs) = [] # re_split_from False (dropWhile isspace cs)"
  by simp

lemma re_split_from_push:
  "\<not> (b \<and> isspace c) \<Longrightarrow>
   re_split_from b (c # cs) = push_front c (re_split_from (is_punct c) cs)"
  by (cases b) simp_all

declare re_split_from.simps(2) [simp del]

lemma re_split_from_not_Nil: "re_split_from b s \<noteq> []"
proof (cases s)
  case Nil
  then show ?thesis by simp
next
  case (Cons c cs)
  show ?thesis
  proof (cases "b \<and> isspace c")
    case True
    then show ?thesis using Cons by (simp add: re_split_from_split)
  next
    case False
    then show ?thesis using Cons
      by (cases "re_split_from (is_punct c) cs") (simp_all add: re_split_from_push push_front_def)
  qed
qed

lemma re_split_from_push_Cons:
  assumes "\<not> (b \<and> isspace c)"
  obtains r0 rs where "re_split_from (is_punct c) cs = r0 # rs"
    and "re_split_from b (c # cs) = (c # r0) # rs"
proof -
  obtain r0 rs where R: "re_split_from (is_punct c) cs = r0 # rs"
    using re_split_from_not_Nil[of "is_punct c" cs] by (cases "re_split_from (is_punct c) cs") simp_all
  have "re_split_from b (c # cs) = (c # r0) # rs"
    using re_split_from_push[OF assms, of cs] R by (simp add: push_front_Cons)
  with R that show thesis by blast
qed

lemma first_piece_after_punct:
  assumes "re_split_from True s = p0 # ps" "p0 \<noteq> []"
  shows "\<not> isspace (hd p0)"
proof (cases s)
  case Nil
  with assms show ?thesis by simp
next
  case (Cons c cs)
  show ?thesis
  proof (cases "isspace c")
    case True
    with assms Cons show ?thesis by (simp add: re_split_from_split)
  next
    case False
    then have "\<not> (True \<and> isspace c)" by simp
    then obtain r0 rs where "re_split_from True (c # cs) = (c # r0) # rs"
      by (rule re_split_from_push_Cons)
    with assms Cons False show ?thesis by auto
  qed
qed

lemma first_piece_start:
  assumes "s \<noteq> []" "\<not> isspace (hd s)"
  obtains t ts where "re_split_from b s = (hd s # t) # ts"
proof (cases s)
  case Nil
  with assms show ?thesis by simp
next
  case (Cons c cs)
  with assms have "\<not> (b \<and> isspace c)" by simp
  then obtain r0 rs where "re_split_from b (c # cs) = (c # r0) # rs"
    by (rule re_split_from_push_Cons)
  with Cons that show ?thesis by simp
qed


lemma dropWhile_all_space:
  "(\<forall>x\<in>set (dropWhile isspace s). isspace x) \<longleftrightarrow> (\<forall>x\<in>set s. isspace x)"
proof
  assume all: "\<forall>x\<in>set (dropWhile isspace s). isspace x"
  have "dropWhile isspace s = []"
  proof (rule ccontr)
    assume ne: "dropWhile isspace s \<noteq> []"
    then have "\<not> isspace (hd (dropWhile isspace s))" by (rule hd_dropWhile)
    moreover have "hd (dropWhile isspace s) \<in> set (dropWhile isspace s)"
      using ne by (rule hd_in_set)
    ultimately show False using all by blast
  qed
  then show "\<forall>x\<in>set s. isspace x" by (simp only: dropWhile_eq_Nil_conv)
next
  assume all: "\<forall>x\<in>set s. isspace x"
  show "\<forall>x\<in>set (dropWhile isspace s). isspace x"
  proof
    fix x
    assume "x \<in> set (dropWhile isspace s)"
    then have "x \<in> set s" by (rule set_dropWhileD)
    with all show "isspace x" by (rule bspec)
  qed
qed

lemma strip_Nil_iff: "strip s = [] \<longleftrightarrow> (\<forall>c\<in>set s. isspace c)"
proof -
  have "strip s = [] \<longleftrightarrow> dropWhile isspace (rev (dropWhile isspace s)) = []"
    by (simp only: strip_def rev_is_Nil_conv)
  also have "\<dots> \<longleftrightarrow> (\<forall>x\<in>set (dropWhile isspace s). isspace x)"
    by (simp only: dropWhile_eq_Nil_conv set_rev)
  also have "\<dots> \<longleftrightarrow> (\<forall>x\<in>set s. isspace x)"
    by (rule dropWhile_all_space)
  finally show ?thesis .
qed

lemma has_break_Cons:
  "has_break (c # p) \<longleftrightarrow> (p \<noteq> [] \<and> is_punct c \<and> isspace (hd p)) \<or> has_break p"
  by (cases p) simp_all

lemma pieces_no_break: "p \<in> set (re_split_from b s) \<Longrightarrow> \<not> has_break p"
proof (induction b s arbitrary: p rule: re_split_from.induct)
  case (1 b)
  then show ?case by simp
next
  case (2 b c cs)
  show ?case
  proof (cases "b \<and> isspace c")
    case True
    then have "re_split_from b (c # cs) = [] # re_split_from False (dropWhile isspace cs)"
      by (simp add: re_split_from_split)
    with 2(3) have "p = [] \<or> p \<in> set (re_split_from False (dropWhile isspace cs))"
      by simp
    with 2(1)[OF True] show ?thesis by auto
  next
    case False
    then obtain r0 rs where R: "re_split_from (is_punct c) cs = r0 # rs"
      and E: "re_split_from b (c # cs) = (c # r0) # rs"
      by (rule re_split_from_push_Cons)
    from 2(3) E have "p = c # r0 \<or> p \<in> set rs" by simp
    then show ?thesis
    proof
      assume p: "p = c # r0"
      have nb: "\<not> has_break r0" using 2(2)[OF False, of r0] R by simp
      have "\<not> (r0 \<noteq> [] \<and> is_punct c \<and> isspace (hd r0))"
        using first_piece_after_punct[of cs r0 rs] R by auto
      with nb p show ?thesis by (simp only: has_break_Cons) blast
    next
      assume "p \<in> set rs"
      with 2(2)[OF False, of p] R show ?thesis by simp
    qed
  qed
qed

lemma first_piece_end:
  "re_split_from b s = p0 # q # qs \<Longrightarrow> (if p0 = [] then b else is_punct (last p0))"
proof (induction b s arbitrary: p0 q qs rule: re_split_from.induct)
  case (1 b)
  then show ?case by simp
next
  case (2 b c cs)
  show ?case
  proof (cases "b \<and> isspace c")
    case True
    then have "re_split_from b (c # cs) = [] # re_split_from False (dropWhile isspace cs)"
      by (simp add: re_split_from_split)
    with 2(3) True show ?thesis by simp
  next
    case False
    then obtain r0 rs where R: "re_split_from (is_punct c) cs = r0 # rs"
      and E: "re_split_from b (c # cs) = (c # r0) # rs"
      by (rule re_split_from_push_Cons)
    from 2(3) E have eq: "p0 = c # r0" "rs = q # qs" by simp_all
    from 2(2)[OF False, of r0 q qs] R eq(2)
    have "if r0 = [] then is_punct c else is_punct (last r0)" by simp
    with eq(1) show ?thesis by (cases "r0 = []") simp_all
  qed
qed

lemma later_pieces_end_punct:
  "p \<in> set (butlast (tl (re_split_from b s))) \<Longrightarrow> p \<noteq> [] \<and> is_punct (last p)"
proof (induction b s arbitrary: p rule: re_split_from.induct)
  case (1 b)
  then show ?case by simp
next
  case (2 b c cs)
  show ?case
  proof (cases "b \<and> isspace c")
    case True
    let ?R = "re_split_from False (dropWhile isspace cs)"
    have "re_split_from b (c # cs) = [] # ?R"
      using True by (simp add: re_split_from_split)
    with 2(3) have in_R: "p \<in> set (butlast ?R)" by simp
    obtain r0 rs where R: "?R = r0 # rs"
      using re_split_from_not_Nil[of False "dropWhile isspace cs"] by (cases ?R) simp_all
    show ?thesis
    proof (cases rs)
      case Nil
      with in_R R show ?thesis by simp
    next
      case (Cons q qs)
      with in_R R have "p = r0 \<or> p \<in> set (butlast (tl ?R))" by auto
      then show ?thesis
      proof
        assume p: "p = r0"
        have "if r0 = [] then False else is_punct (last r0)"
          using first_piece_end[of False "dropWhile isspace cs" r0 q qs] R Cons by simp
        with p show ?thesis by (cases "r0 = []") simp_all
      next
        assume "p \<in> set (butlast (tl ?R))"
        with 2(1)[OF True, of p] show ?thesis by simp
      qed
    qed
  next
    case False
    then obtain r0 rs where R: "re_split_from (is_punct c) cs = r0 # rs"
      and E: "re_split_from b (c # cs) = (c # r0) # rs"
      by (rule re_split_from_push_Cons)
    from 2(3) E R have "p \<in> set (butlast (tl (re_split_from (is_punct c) cs)))"
      by simp
    with 2(2)[OF False, of p] show ?thesis by simp
  qed
qed

lemma split_butlast_end_punct:
  assumes "p \<in> set (butlast (SECTION_SPLIT_RE_split s))"
  shows "p \<noteq> [] \<and> is_punct (last p)"
proof -
  let ?R = "re_split_from False s"
  obtain r0 rs where R: "?R = r0 # rs"
    using re_split_from_not_Nil[of False s] by (cases ?R) simp_all
  show ?thesis
  proof (cases rs)
    case Nil
    with assms R show ?thesis by (simp add: SECTION_SPLIT_RE_split_def)
  next
    case (Cons q qs)
    with assms R have "p = r0 \<or> p \<in> set (butlast (tl ?R))"
      by (auto simp: SECTION_SPLIT_RE_split_def)
    then show ?thesis
    proof
      assume p: "p = r0"
      have "if r0 = [] then False else is_punct (last r0)"
        using first_piece_end[of False s r0 q qs] R Cons by simp
      with p show ?thesis by (cases "r0 = []") simp_all
    next
      assume "p \<in> set (butlast (tl ?R))"
      then show ?thesis by (rule later_pieces_end_punct)
    qed
  qed
qed

lemma later_pieces_start:
  "p \<in> set (tl (re_split_from b s)) \<Longrightarrow> p \<noteq> [] \<Longrightarrow> \<not> isspace (hd p)"
proof (induction b s arbitrary: p rule: re_split_from.induct)
  case (1 b)
  then show ?case by simp
next
  case (2 b c cs)
  show ?case
  proof (cases "b \<and> isspace c")
    case True
    let ?d = "dropWhile isspace cs"
    let ?R = "re_split_from False ?d"
    have "re_split_from b (c # cs) = [] # ?R"
      using True by (simp add: re_split_from_split)
    with 2(3) have in_R: "p \<in> set ?R" by simp
    obtain r0 rs where R: "?R = r0 # rs"
      using re_split_from_not_Nil[of False ?d] by (cases ?R) simp_all
    from in_R R have "p = r0 \<or> p \<in> set (tl ?R)" by auto
    then show ?thesis
    proof
      assume p: "p = r0"
      show ?thesis
      proof (cases "?d = []")
        case True
        with R p 2(4) show ?thesis by simp
      next
        case False
        then have ns: "\<not> isspace (hd ?d)" by (rule hd_dropWhile)
        obtain t ts where "?R = (hd ?d # t) # ts"
          using first_piece_start[OF False ns, of False] by blast
        with R p ns show ?thesis by auto
      qed
    next
      assume "p \<in> set (tl ?R)"
      then show ?thesis using 2(1)[OF True, of p] 2(4) by simp
    qed
  next
    case False
    then obtain r0 rs where R: "re_split_from (is_punct c) cs = r0 # rs"
      and E: "re_split_from b (c # cs) = (c # r0) # rs"
      by (rule re_split_from_push_Cons)
    from 2(3) E R have "p \<in> set (tl (re_split_from (is_punct c) cs))" by simp
    then show ?thesis using 2(2)[OF False, of p] 2(4) by simp
  qed
qed

lemma weave_Cons_front: "weave ((c # p) # ps) ws = c # weave (p # ps) ws"
  by (cases ws) simp_all

lemma pieces_weave:
  "\<exists>ws. length ws + 1 = length (re_split_from b s)
       \<and> (\<forall>w\<in>set ws. w \<noteq> [] \<and> (\<forall>c\<in>set w. isspace c))
       \<and> weave (re_split_from b s) ws = s"
proof (induction b s rule: re_split_from.induct)
  case (1 b)
  have "length ([]::string list) + 1 = length (re_split_from b [])
        \<and> (\<forall>w\<in>set ([]::string list). w \<noteq> [] \<and> (\<forall>c\<in>set w. isspace c))
        \<and> weave (re_split_from b []) [] = []" by simp
  then show ?case by blast
next
  case (2 b c cs)
  show ?case
  proof (cases "b \<and> isspace c")
    case True
    let ?R = "re_split_from False (dropWhile isspace cs)"
    from 2(1)[OF True] obtain ws where ws:
      "length ws + 1 = length ?R" "\<forall>w\<in>set ws. w \<noteq> [] \<and> (\<forall>c\<in>set w. isspace c)"
      "weave ?R ws = dropWhile isspace cs" by blast
    let ?w = "c # takeWhile isspace cs"
    have eq: "re_split_from b (c # cs) = [] # ?R"
      using True by (simp add: re_split_from_split)
    have "\<forall>a\<in>set (takeWhile isspace cs). isspace a"
    proof
      fix a
      assume "a \<in> set (takeWhile isspace cs)"
      then have "a \<in> set cs \<and> isspace a" by (rule set_takeWhileD)
      then show "isspace a" by (rule conjunct2)
    qed
    then have w: "?w \<noteq> [] \<and> (\<forall>a\<in>set ?w. isspace a)"
      using True by simp
    have "length (?w # ws) + 1 = length (re_split_from b (c # cs))"
      unfolding eq using ws(1) by simp
    moreover have "\<forall>w\<in>set (?w # ws). w \<noteq> [] \<and> (\<forall>c\<in>set w. isspace c)"
      using w ws(2) by simp
    moreover have "weave (re_split_from b (c # cs)) (?w # ws) = c # cs"
      unfolding eq using ws(3) by simp
    ultimately show ?thesis by blast
  next
    case False
    let ?R = "re_split_from (is_punct c) cs"
    from 2(2)[OF False] obtain ws where ws:
      "length ws + 1 = length ?R" "\<forall>w\<in>set ws. w \<noteq> [] \<and> (\<forall>c\<in>set w. isspace c)"
      "weave ?R ws = cs" by blast
    from False obtain r0 rs where R: "?R = r0 # rs"
      and E: "re_split_from b (c # cs) = (c # r0) # rs"
      by (rule re_split_from_push_Cons)
    have "length ws + 1 = length (re_split_from b (c # cs))"
      unfolding E using ws(1) R by simp
    moreover have "weave (re_split_from b (c # cs)) ws = c # cs"
      unfolding E using ws(3) R by (simp add: weave_Cons_front)
    ultimately show ?thesis using ws(2) by blast
  qed
qed


section \<open>Lemmas about the ranker\<close>

lemma descending_argsort_length:
  "descending_argsort scores r \<Longrightarrow> length r = length scores"
proof -
  assume "descending_argsort scores r"
  then have "sort r = [0..<length scores]" by (simp add: descending_argsort_def)
  then have "length (sort r) = length [0..<length scores]" by (rule arg_cong)
  then show ?thesis by simp
qed

lemma descending_argsort_set:
  "descending_argsort scores r \<Longrightarrow> set r = {0..<length scores}"
proof -
  assume "descending_argsort scores r"
  then have "sort r = [0..<length scores]" by (simp add: descending_argsort_def)
  then have "set (sort r) = set [0..<length scores]" by (rule arg_cong)
  then show ?thesis by simp
qed

lemma descending_argsort_distinct:
  "descending_argsort scores r \<Longrightarrow> distinct r"
proof -
  assume "descending_argsort scores r"
  then have "sort r = [0..<length scores]" by (simp add: descending_argsort_def)
  then have "distinct (sort r) = distinct [0..<length scores]" by (rule arg_cong)
  then show ?thesis by simp
qed

lemma descending_argsort_sorted:
  "descending_argsort scores r \<Longrightarrow> sorted_wrt (\<lambda>i j. scores ! j \<le> scores ! i) r"
  by (simp add: descending_argsort_def)


lemma take_py_nonneg: "0 \<le> k \<Longrightarrow> take_py k xs = take (nat k) xs"
  by (simp add: take_py_def)

lemma take_py_neg: "k < 0 \<Longrightarrow> take_py k xs = take (length xs - nat (- k)) xs"
  by (simp add: take_py_def)

lemma similarity_ranker_Inr:
  "cos_sim x q embs = Inr scores \<Longrightarrow>
   similarity_ranker x q embs k = Inr (take_py k (argsort_descending x scores))"
  by (simp add: similarity_ranker_def)

lemma sorted_wrt_take_top:
  assumes "sorted_wrt P xs" "i \<in> set (take n xs)" "j \<in> set xs" "j \<notin> set (take n xs)"
  shows "P i j"
proof -
  have "xs = take n xs @ drop n xs" by simp
  with assms(1) have "sorted_wrt P (take n xs @ drop n xs)" by simp
  then have "\<forall>a\<in>set (take n xs). \<forall>b\<in>set (drop n xs). P a b"
    by (simp only: sorted_wrt_append) blast
  moreover have "set xs = set (take n xs) \<union> set (drop n xs)"
    by (metis append_take_drop_id set_append)
  with assms(3,4) have "j \<in> set (drop n xs)" by blast
  ultimately show ?thesis using assms(2) by blast
qed

section \<open>Lemmas about the extraction of units\<close>






section \<open>Lemmas about the pipeline\<close>


















section \<open>Claims about the sentence splitter\<close>

text \<open>
  C7. The sentence splitter breaks the text after each \<open>.\<close>, \<open>?\<close> or \<open>!\<close> that is
  followed by whitespace: the text is its pieces with a non-empty run of whitespace
  between each two of them, every piece but the last ends with the punctuation
  mark, every piece after the first is empty or starts with a character that is not
  whitespace, and no piece contains a mark followed by whitespace. The sentences
  are the pieces that have a character other than whitespace. The text
  \<open>Hello world. This is a test! Is it working?\<close> gives the three sentences
  \<open>Hello world.\<close>, \<open>This is a test!\<close> and \<open>Is it working?\<close>.
\<close>

theorem split_sentences_rule:
  "split_sentences ''Hello world. This is a test! Is it working?''
     = [''Hello world.'', ''This is a test!'', ''Is it working?'']
   \<and> (\<exists>ws. length ws + 1 = length (SECTION_SPLIT_RE_split s)
          \<and> (\<forall>w\<in>set ws. w \<noteq> [] \<and> (\<forall>c\<in>set w. isspace c))
          \<and> weave (SECTION_SPLIT_RE_split s) ws = s)
   \<and> (\<forall>p\<in>set (butlast (SECTION_SPLIT_RE_split s)). p \<noteq> [] \<and> is_punct (last p))
   \<and> (\<forall>p\<in>set (tl (SECTION_SPLIT_RE_split s)). p \<noteq> [] \<longrightarrow> \<not> isspace (hd p))
   \<and> (\<forall>p\<in>set (SECTION_SPLIT_RE_split s). \<not> has_break p)
   \<and> split_sentences s = filter (\<lambda>p. \<exists>c\<in>set p. \<not> isspace c) (SECTION_SPLIT_RE_split s)"
proof -
  have ex: "split_sentences ''Hello world. This is a test! Is it working?''
     = [''Hello world.'', ''This is a test!'', ''Is it working?'']"
    by (simp add: split_sentences_def SECTION_SPLIT_RE_split_def re_split_from.simps
        isspace_def is_punct_def push_front_def strip_def)
  have w: "\<exists>ws. length ws + 1 = length (SECTION_SPLIT_RE_split s)
          \<and> (\<forall>w\<in>set ws. w \<noteq> [] \<and> (\<forall>c\<in>set w. isspace c))
          \<and> weave (SECTION_SPLIT_RE_split s) ws = s"
    unfolding SECTION_SPLIT_RE_split_def by (rule pieces_weave)
  have e: "\<forall>p\<in>set (butlast (SECTION_SPLIT_RE_split s)). p \<noteq> [] \<and> is_punct (last p)"
    using split_butlast_end_punct by (rule ballI)
  have st: "\<forall>p\<in>set (tl (SECTION_SPLIT_RE_split s)). p \<noteq> [] \<longrightarrow> \<not> isspace (hd p)"
  proof (intro ballI impI)
    fix p
    assume "p \<in> set (tl (SECTION_SPLIT_RE_split s))" and "p \<noteq> []"
    then show "\<not> isspace (hd p)"
      unfolding SECTION_SPLIT_RE_split_def by (rule later_pieces_start)
  qed
  have nb: "\<forall>p\<in>set (SECTION_SPLIT_RE_split s). \<not> has_break p"
  proof
    fix p
    assume "p \<in> set (SECTION_SPLIT_RE_split s)"
    then show "\<not> has_break p"
      unfolding SECTION_SPLIT_RE_split_def by (rule pieces_no_break)
  qed
  have f: "split_sentences s = filter (\<lambda>p. \<exists>c\<in>set p. \<not> isspace c) (SECTION_SPLIT_RE_split s)"
    unfolding split_sentences_def by (simp add: strip_Nil_iff)
  from ex w e st nb f show ?thesis by (intro conjI)
qed

theorem split_sentences_rule_witness:
  "SECTION_SPLIT_RE_split ''Wait... Really?  Yes!   '' = [''Wait...'', ''Really?'', ''Yes!'', []]
   \<and> split_sentences ''Wait... Really?  Yes!   '' = [''Wait...'', ''Really?'', ''Yes!'']
   \<and> weave (SECTION_SPLIT_RE_split ''Wait... Really?  Yes!   '') ['' '', ''  '', ''   '']
       = ''Wait... Really?  Yes!   ''"
  using split_sentences_rule [of "''Wait... Really?  Yes!   ''"]
  by (simp add: split_sentences_def SECTION_SPLIT_RE_split_def re_split_from.simps
      isspace_def is_punct_def push_front_def strip_def)

section \<open>Claims about the similarity ranker\<close>

text \<open>
  C1. When the similarity returns one score for each of the \<open>N\<close> candidates and the
  sort keeps the promise of its documentation, the ranker with a count \<open>K\<close> of at
  least one returns \<open>min K N\<close> indices, all distinct, all below \<open>N\<close>, with scores
  that do not increase along the ranking, and no candidate left out has a higher
  score than a candidate in it.
\<close>

theorem ranker_top_k:
  assumes cs: "cos_sim x q embs = Inr scores"
      and len: "length scores = length embs"
      and srt: "descending_argsort scores (argsort_descending x scores)"
      and k: "1 \<le> k"
  shows "\<exists>r. similarity_ranker x q embs k = Inr r
          \<and> length r = min (nat k) (length embs)
          \<and> distinct r
          \<and> (\<forall>i\<in>set r. i < length embs)
          \<and> sorted_wrt (\<lambda>i j. scores ! j \<le> scores ! i) r
          \<and> (\<forall>j<length embs. j \<notin> set r \<longrightarrow> (\<forall>i\<in>set r. scores ! j \<le> scores ! i))"
proof -
  let ?L = "argsort_descending x scores"
  let ?r = "take (nat k) ?L"
  have r: "similarity_ranker x q embs k = Inr ?r"
    using similarity_ranker_Inr[OF cs, of k] k by (simp add: take_py_nonneg)
  have lenL: "length ?L = length embs"
    using descending_argsort_length[OF srt] len by simp
  have setL: "set ?L = {0..<length embs}"
    using descending_argsort_set[OF srt] len by simp
  have sL: "sorted_wrt (\<lambda>i j. scores ! j \<le> scores ! i) ?L"
    using srt by (rule descending_argsort_sorted)
  have 1: "length ?r = min (nat k) (length embs)" using lenL by simp
  have 2: "distinct ?r" using descending_argsort_distinct[OF srt] by (rule distinct_take)
  have 3: "\<forall>i\<in>set ?r. i < length embs"
  proof
    fix i assume "i \<in> set ?r"
    then have "i \<in> set ?L" by (rule in_set_takeD)
    with setL show "i < length embs" by simp
  qed
  have 4: "sorted_wrt (\<lambda>i j. scores ! j \<le> scores ! i) ?r"
    using sL by (rule sorted_wrt_take)
  have 5: "\<forall>j<length embs. j \<notin> set ?r \<longrightarrow> (\<forall>i\<in>set ?r. scores ! j \<le> scores ! i)"
  proof (intro allI impI ballI)
    fix j i
    assume "j < length embs" "j \<notin> set ?r" "i \<in> set ?r"
    moreover from \<open>j < length embs\<close> setL have "j \<in> set ?L" by simp
    ultimately show "scores ! j \<le> scores ! i"
      using sorted_wrt_take_top[OF sL, of i "nat k" j] by simp
  qed
  from r 1 2 3 4 5 show ?thesis by blast
qed

theorem ranker_top_k_witness:
  "cos_sim (test_ext argsort_stable demo_cfg demo_files) 2 [3, 5, 4] = Inr [6, 10, 8]
   \<and> descending_argsort ([6, 10, 8]::int list)
        (argsort_descending (test_ext argsort_stable demo_cfg demo_files) [6, 10, 8])
   \<and> similarity_ranker (test_ext argsort_stable demo_cfg demo_files) 2 [3, 5, 4] 2 = Inr [1, 2]"
  using ranker_top_k [of "test_ext argsort_stable demo_cfg demo_files" 2 "[3, 5, 4]" "[6, 10, 8]" 2]
  by (simp add: similarity_ranker_def test_ext_def argsort_stable_def take_py_def
      descending_argsort_def)

text \<open>
  C4, as stated: a count \<open>K \<le> 0\<close> gives an empty ranking. The slice \<open>[:K]\<close> with
  \<open>K = -1\<close> drops the last index only: three candidates give a ranking of two.
\<close>

theorem ranker_negative_count_counterexample:
  "similarity_ranker (test_ext argsort_stable demo_cfg demo_files) 2 [3, 5, 4] (- 1) = Inr [1, 2]"
  by (simp add: similarity_ranker_def test_ext_def argsort_stable_def take_py_def)

text \<open>
  C4, amended: with \<open>K = 0\<close> the ranking is empty; with \<open>K < 0\<close> it is the
  descending order of the \<open>N\<close> candidates without its last \<open>-K\<close> indices, which is
  empty when \<open>N \<le> -K\<close> and has \<open>N + K\<close> indices otherwise.
\<close>

theorem ranker_nonpositive_count:
  assumes cs: "cos_sim x q embs = Inr scores"
      and len: "length scores = length embs"
      and srt: "descending_argsort scores (argsort_descending x scores)"
      and k: "k \<le> 0"
  shows "\<exists>r. similarity_ranker x q embs k = Inr r
          \<and> (k = 0 \<longrightarrow> r = [])
          \<and> (k < 0 \<longrightarrow> r = take (length embs - nat (- k)) (argsort_descending x scores)
                       \<and> length r = length embs - nat (- k))
          \<and> (k < 0 \<and> int (length embs) \<le> - k \<longrightarrow> r = [])"
proof -
  let ?L = "argsort_descending x scores"
  let ?r = "take_py k ?L"
  have lenL: "length ?L = length embs"
    using descending_argsort_length[OF srt] len by simp
  have r: "similarity_ranker x q embs k = Inr ?r"
    using cs by (rule similarity_ranker_Inr)
  have z: "k = 0 \<longrightarrow> ?r = []" by (simp add: take_py_def)
  have n: "k < 0 \<longrightarrow> ?r = take (length embs - nat (- k)) ?L
                      \<and> length ?r = length embs - nat (- k)"
    using lenL by (simp add: take_py_neg)
  have e: "k < 0 \<and> int (length embs) \<le> - k \<longrightarrow> ?r = []"
    using lenL by (auto simp: take_py_neg)
  from r z n e show ?thesis by blast
qed

theorem ranker_nonpositive_count_witness:
  "cos_sim (test_ext argsort_stable demo_cfg demo_files) 2 [3, 5, 4] = Inr [6, 10, 8]
   \<and> descending_argsort ([6, 10, 8]::int list)
        (argsort_descending (test_ext argsort_stable demo_cfg demo_files) [6, 10, 8])
   \<and> similarity_ranker (test_ext argsort_stable demo_cfg demo_files) 2 [3, 5, 4] (- 2) = Inr [1]
   \<and> similarity_ranker (test_ext argsort_stable demo_cfg demo_files) 2 [3, 5, 4] 0 = Inr []"
  using ranker_nonpositive_count
    [of "test_ext argsort_stable demo_cfg demo_files" 2 "[3, 5, 4]" "[6, 10, 8]" "- 2"]
  by (simp add: similarity_ranker_def test_ext_def argsort_stable_def take_py_def
      descending_argsort_def)

section \<open>Claims about the unit extractor\<close>





section \<open>Claims about the run configuration\<close>




section \<open>Claims about the pipeline\<close>





end
